theory Spec2Isabelle
  imports Main "HOL-Library.Sublist" "HOL-Library.Multiset"
begin

section \<open>Data model\<close>

text \<open>
  A text is the sequence of code points that \<open>for (const char of text)\<close> iterates over;
  the code points are kept abstract (type \<open>'a\<close>).  A string of the source that holds
  symbols is a list of code points, so the field \<open>character\<close> of a node is \<open>[]\<close> (the empty
  string, falsy) for an internal node and a one-element list for a leaf.  Bit strings are
  strings over \<open>CHR ''0''\<close> and \<open>CHR ''1''\<close>.  Frequencies are occurrence counts, far
  below \<open>2 ^ 53\<close>, where the source's numbers are exact; they are natural numbers here.
  \<open>null\<close> and \<open>undefined\<close> (both falsy) are \<open>None\<close>.
\<close>

datatype 'a HuffmanTreeNode =
  HuffmanTreeNode
    (character: "'a list")
    (frequency: nat)
    (leftChild: "'a HuffmanTreeNode option")
    (rightChild: "'a HuffmanTreeNode option")

record 'a HuffmanCompression =
  root :: "'a HuffmanTreeNode option"
  encodingMap :: "'a list \<rightharpoonup> string"

text \<open>The object as the class's field initialisers leave it.\<close>

definition newHuffmanCompression :: "'a HuffmanCompression" where
  "newHuffmanCompression = \<lparr>root = None, encodingMap = Map.empty\<rparr>"

section \<open>Frequency analysis\<close>

text \<open>
  \<open>calculateCharacterFrequencies\<close> (\<open>buzz.ts\<close>, lines 130 to 136).  A \<open>Map\<close> of the source
  iterates in insertion order and \<open>set\<close> on a key that is present keeps the key's position:
  an association list, updated in place or extended at the end.
\<close>

fun mapGet :: "('k \<times> 'v) list \<Rightarrow> 'k \<Rightarrow> 'v option" where
  "mapGet [] k = None"
| "mapGet ((k', v) # m) k = (if k' = k then Some v else mapGet m k)"

fun mapSet :: "('k \<times> 'v) list \<Rightarrow> 'k \<Rightarrow> 'v \<Rightarrow> ('k \<times> 'v) list" where
  "mapSet [] k v = [(k, v)]"
| "mapSet ((k', v') # m) k v = (if k' = k then (k, v) # m else (k', v') # mapSet m k v)"

text \<open>\<open>x || 0\<close> on an optional number: \<open>undefined\<close> and \<open>0\<close> are falsy.\<close>

definition orZero :: "nat option \<Rightarrow> nat" where
  "orZero x = (case x of None \<Rightarrow> 0 | Some n \<Rightarrow> if n = 0 then 0 else n)"

fun countLoop :: "'a list \<Rightarrow> ('a list \<times> nat) list \<Rightarrow> ('a list \<times> nat) list" where
  "countLoop [] frequencyMap = frequencyMap"
| "countLoop (char # text) frequencyMap =
     countLoop text (mapSet frequencyMap [char] (orZero (mapGet frequencyMap [char]) + 1))"

definition calculateCharacterFrequencies :: "'a list \<Rightarrow> ('a list \<times> nat) list" where
  "calculateCharacterFrequencies text = countLoop text []"

section \<open>Tree construction\<close>

text \<open>
  \<open>createInitialNodeQueue\<close> (lines 144 to 148) and \<open>buildHuffmanTree\<close> (lines 35 to 65).
\<close>

definition createInitialNodeQueue :: "('a list \<times> nat) list \<Rightarrow> 'a HuffmanTreeNode list" where
  "createInitialNodeQueue frequencyMap =
     map (\<lambda>(char, freq). HuffmanTreeNode char freq None None) frequencyMap"

text \<open>
  One run of the \<open>while\<close> loop per call.  \<open>Array.prototype.sort\<close> is stable, and so is
  \<open>sort_key\<close>; the comparator \<open>a.frequency - b.frequency\<close> orders by ascending frequency.
  The two \<open>shift()\<close> calls take the first two elements of the sorted queue, which has more
  than one element under the loop condition, so the last case is never reached.
\<close>

function buildLoop :: "'a HuffmanTreeNode list \<Rightarrow> 'a HuffmanTreeNode list" where
  "buildLoop nodeQueue =
     (if length nodeQueue > 1 then
        (case sort_key frequency nodeQueue of
           left # right # rest \<Rightarrow>
             buildLoop (rest @
               [HuffmanTreeNode [] (frequency left + frequency right) (Some left) (Some right)])
         | _ \<Rightarrow> nodeQueue)
      else nodeQueue)"
  by pat_completeness auto
termination
proof (relation "measure length")
  show "wf (measure length)" by simp
next
  fix nodeQueue :: "'a HuffmanTreeNode list" and x21 x22 x221 x222
  assume "sort_key frequency nodeQueue = x21 # x22" "x22 = x221 # x222"
  then have "length nodeQueue = length (x21 # x221 # x222)"
    by (metis length_sort)
  then show "(x222 @ [HuffmanTreeNode [] (frequency x21 + frequency x221) (Some x21) (Some x221)],
               nodeQueue) \<in> measure length"
    by simp
qed

declare buildLoop.simps [simp del]

text \<open>\<open>nodeQueue[0]\<close> is \<open>undefined\<close> on the empty array.\<close>

definition firstNode :: "'a HuffmanTreeNode list \<Rightarrow> 'a HuffmanTreeNode option" where
  "firstNode nodeQueue = (case nodeQueue of [] \<Rightarrow> None | n # _ \<Rightarrow> Some n)"

definition buildHuffmanTree :: "'a list \<Rightarrow> 'a HuffmanCompression \<Rightarrow> 'a HuffmanCompression" where
  "buildHuffmanTree inputText h =
     (let frequencyMap = calculateCharacterFrequencies inputText;
          nodeQueue = createInitialNodeQueue frequencyMap
      in h\<lparr>root := firstNode (buildLoop nodeQueue)\<rparr>)"

section \<open>Code generation\<close>

text \<open>
  \<open>generateCodesRecursively\<close> (lines 158 to 169) with the table \<open>encodingMap\<close> passed
  through the calls, and \<open>generateHuffmanCodes\<close> (lines 72 to 75).
\<close>

fun generateCodesRecursively ::
  "'a HuffmanTreeNode option \<Rightarrow> string \<Rightarrow> ('a list \<rightharpoonup> string) \<Rightarrow> ('a list \<rightharpoonup> string)" where
  "generateCodesRecursively None code m = m"
| "generateCodesRecursively (Some (HuffmanTreeNode ch f l r)) code m =
     (let m1 = (if ch \<noteq> [] then m(ch \<mapsto> code) else m);
          m2 = generateCodesRecursively l (code @ ''0'') m1
      in generateCodesRecursively r (code @ ''1'') m2)"

definition generateHuffmanCodes :: "'a HuffmanCompression \<Rightarrow> 'a HuffmanCompression" where
  "generateHuffmanCodes h =
     h\<lparr>encodingMap := generateCodesRecursively (root h) [] Map.empty\<rparr>"

section \<open>Encoding and decoding\<close>

text \<open>\<open>encodeText\<close> (lines 84 to 90) and \<open>decodeText\<close> (lines 100 to 122).\<close>

text \<open>\<open>x || ''\<close> on an optional string: \<open>undefined\<close> and the empty string are falsy.\<close>

definition orEmpty :: "string option \<Rightarrow> string" where
  "orEmpty x = (case x of None \<Rightarrow> [] | Some s \<Rightarrow> if s = [] then [] else s)"

fun encodeLoop :: "('a list \<rightharpoonup> string) \<Rightarrow> 'a list \<Rightarrow> string \<Rightarrow> string" where
  "encodeLoop m [] encodedText = encodedText"
| "encodeLoop m (char # text) encodedText =
     encodeLoop m text (encodedText @ orEmpty (m [char]))"

definition encodeText :: "'a HuffmanCompression \<Rightarrow> 'a list \<Rightarrow> string" where
  "encodeText h inputText = encodeLoop (encodingMap h) inputText []"

text \<open>
  The decoder's loop over the bits, on the loop's variables \<open>decodedText\<close> and
  \<open>currentNode\<close>; the result is their value when the loop is left, by \<open>break\<close> or at the
  end of the bits.
\<close>

fun decodeLoop ::
  "'a HuffmanTreeNode option \<Rightarrow> string \<Rightarrow> 'a list \<Rightarrow> 'a HuffmanTreeNode option \<Rightarrow>
     'a list \<times> 'a HuffmanTreeNode option" where
  "decodeLoop rt [] decodedText currentNode = (decodedText, currentNode)"
| "decodeLoop rt (b # bits) decodedText currentNode =
     (case currentNode of
        None \<Rightarrow> (decodedText, currentNode)
      | Some node \<Rightarrow>
          (let moved = (if b = CHR ''0'' then leftChild node else rightChild node)
           in case moved of
                None \<Rightarrow> decodeLoop rt bits decodedText None
              | Some n \<Rightarrow>
                  if character n \<noteq> [] then decodeLoop rt bits (decodedText @ character n) rt
                  else decodeLoop rt bits decodedText (Some n)))"

definition decodeText :: "'a HuffmanCompression \<Rightarrow> string \<Rightarrow> 'a list" where
  "decodeText h encodedText = fst (decodeLoop (root h) encodedText [] (root h))"

section \<open>Notions for the properties\<close>

text \<open>The leaves of a tree of the source: the nodes without children.\<close>

fun leafCount :: "'a HuffmanTreeNode \<Rightarrow> nat" where
  "leafCount (HuffmanTreeNode ch f l r) =
     (if l = None \<and> r = None then 1
      else (case l of None \<Rightarrow> 0 | Some n \<Rightarrow> leafCount n) +
           (case r of None \<Rightarrow> 0 | Some n \<Rightarrow> leafCount n))"

text \<open>
  The trees that the builder produces have a regular shape: a leaf holds one symbol and a
  frequency and has no children, an inner node has the empty string, two children and the
  sum of their frequencies.  The type \<open>htree\<close> has exactly these trees, \<open>nodeOf\<close> maps
  them to the nodes of the source, and \<open>hbuild\<close> is the loop of \<open>buildHuffmanTree\<close> on them.
  \<open>codeOf t c\<close> is the path from the root of \<open>t\<close> to the leaf of the symbol \<open>c\<close>.
\<close>

datatype 'a htree = HLeaf 'a nat | HNode "'a htree" "'a htree"

fun weight :: "'a htree \<Rightarrow> nat" where
  "weight (HLeaf c w) = w"
| "weight (HNode l r) = weight l + weight r"

fun nodeOf :: "'a htree \<Rightarrow> 'a HuffmanTreeNode" where
  "nodeOf (HLeaf c w) = HuffmanTreeNode [c] w None None"
| "nodeOf (HNode l r) =
     HuffmanTreeNode [] (weight l + weight r) (Some (nodeOf l)) (Some (nodeOf r))"

fun symbols :: "'a htree \<Rightarrow> 'a list" where
  "symbols (HLeaf c w) = [c]"
| "symbols (HNode l r) = symbols l @ symbols r"

fun codeOf :: "'a htree \<Rightarrow> 'a \<Rightarrow> string" where
  "codeOf (HLeaf c w) s = []"
| "codeOf (HNode l r) s =
     (if s \<in> set (symbols l) then CHR ''0'' # codeOf l s else CHR ''1'' # codeOf r s)"

function hbuild :: "'a htree list \<Rightarrow> 'a htree list" where
  "hbuild ts =
     (if length ts > 1 then
        (case sort_key weight ts of
           a # b # rest \<Rightarrow> hbuild (rest @ [HNode a b])
         | _ \<Rightarrow> ts)
      else ts)"
  by pat_completeness auto
termination
proof (relation "measure length")
  show "wf (measure length)" by simp
next
  fix ts :: "'a htree list" and a bs b rest
  assume "sort_key weight ts = a # bs" "bs = b # rest"
  then have "length ts = length (a # b # rest)"
    by (metis length_sort)
  then show "(rest @ [HNode a b], ts) \<in> measure length"
    by simp
qed

declare hbuild.simps [simp del]

definition allSymbols :: "'a htree list \<Rightarrow> 'a list" where
  "allSymbols ts = concat (map symbols ts)"

text \<open>The leaves made from a frequency table, whose keys are one-symbol strings.\<close>

definition initialTrees :: "('a list \<times> nat) list \<Rightarrow> 'a htree list" where
  "initialTrees fm = map (\<lambda>(char, freq). HLeaf (hd char) freq) fm"

text \<open>
  \<open>rise ts t\<close> counts the merges that the rest of the loop, started on the queue \<open>ts\<close>,
  puts above the tree \<open>t\<close> of the queue: the depth of the root of \<open>t\<close> in the final tree.
  \<open>queueInv\<close> is what the loop keeps true of its queue: the symbols of the trees are
  distinct, the inner nodes stand in the order of their creation with ascending
  frequencies, and no tree of the queue is lighter than a child of an inner node.
\<close>

fun isNode :: "'a htree \<Rightarrow> bool" where
  "isNode (HLeaf c w) = False"
| "isNode (HNode l r) = True"

function rise :: "'a htree list \<Rightarrow> 'a htree \<Rightarrow> nat" where
  "rise ts t =
     (if length ts > 1 then
        (case sort_key weight ts of
           a # b # rest \<Rightarrow>
             if t = a \<or> t = b then Suc (rise (rest @ [HNode a b]) (HNode a b))
             else rise (rest @ [HNode a b]) t
         | _ \<Rightarrow> 0)
      else 0)"
  by pat_completeness auto
termination
proof (relation "measure (\<lambda>(ts, t). length ts)")
  show "wf (measure (\<lambda>(ts, t). length ts))" by simp
next
  fix ts :: "'a htree list" and t a bs b rest
  assume "sort_key weight ts = a # bs" "bs = b # rest"
  then have l: "length ts = length (a # b # rest)"
    by (metis length_sort)
  then show "((rest @ [HNode a b], HNode a b), ts, t) \<in> measure (\<lambda>(ts, t). length ts)"
    by simp
  from l show "((rest @ [HNode a b], t), ts, t) \<in> measure (\<lambda>(ts, t). length ts)"
    by simp
qed

declare rise.simps [simp del]

definition queueInv :: "'a htree list \<Rightarrow> bool" where
  "queueInv ts \<longleftrightarrow>
     distinct (allSymbols ts) \<and>
     sorted (map weight (filter isNode ts)) \<and>
     (\<forall>l r. HNode l r \<in> set ts \<longrightarrow> (\<forall>z \<in> set ts. weight l \<le> weight z \<and> weight r \<le> weight z))"

section \<open>The frequency table\<close>

lemma mapGet_mapSet: "mapGet (mapSet m k v) k' = (if k' = k then Some v else mapGet m k')"
  by (induction m) auto

lemma mapGet_None_iff: "mapGet m k = None \<longleftrightarrow> k \<notin> fst ` set m"
  by (induction m) (auto split: if_splits)

lemma keys_mapSet:
  "map fst (mapSet m k v) = (if k \<in> fst ` set m then map fst m else map fst m @ [k])"
  by (induction m) (auto split: if_splits)

lemma sum_mapSet:
  "sum_list (map snd (mapSet m k (Suc (orZero (mapGet m k))))) = Suc (sum_list (map snd m))"
  by (induction m) (auto simp: orZero_def)

lemma countLoop_sum:
  "sum_list (map snd (countLoop inputText m)) = sum_list (map snd m) + length inputText"
  by (induction inputText arbitrary: m) (simp_all add: sum_mapSet)

lemma keys_set_mapSet: "fst ` set (mapSet m k v) = insert k (fst ` set m)"
proof -
  have "set (map fst (mapSet m k v)) = insert k (set (map fst m))"
    unfolding keys_mapSet by auto
  then show ?thesis by simp
qed

lemma countLoop_keys_set:
  "fst ` set (countLoop inputText m) = fst ` set m \<union> (\<lambda>c. [c]) ` set inputText"
  by (induction inputText arbitrary: m) (simp_all add: keys_set_mapSet)

lemma distinct_mapSet: "distinct (map fst m) \<Longrightarrow> distinct (map fst (mapSet m k v))"
  by (simp add: keys_mapSet)

lemma countLoop_distinct:
  "distinct (map fst m) \<Longrightarrow> distinct (map fst (countLoop inputText m))"
  by (induction inputText arbitrary: m) (simp_all add: distinct_mapSet)

lemma countLoop_get:
  "mapGet (countLoop inputText m) [c] =
     (if c \<in> set inputText \<or> mapGet m [c] \<noteq> None
      then Some (orZero (mapGet m [c]) + count_list inputText c) else None)"
proof (induction inputText arbitrary: m)
  case Nil
  then show ?case by (auto simp: orZero_def)
next
  case (Cons a as)
  show ?case
    unfolding countLoop.simps Cons.IH mapGet_mapSet
    by (auto simp: orZero_def)
qed

lemma calc_get:
  "mapGet (calculateCharacterFrequencies inputText) [c] =
     (if c \<in> set inputText then Some (count_list inputText c) else None)"
  by (simp add: calculateCharacterFrequencies_def countLoop_get orZero_def)

lemma count_list_pos: "c \<in> set xs \<Longrightarrow> 0 < count_list xs c"
  by (induction xs) auto

section \<open>Single symbols, the encoder and the decoder\<close>

lemma countLoop_single:
  "set xs \<subseteq> {c} \<Longrightarrow> countLoop xs [([c], k)] = [([c], k + length xs)]"
  by (induction xs arbitrary: k) (auto simp: orZero_def)

lemma calc_single:
  assumes "set inputText = {c}"
  shows "calculateCharacterFrequencies inputText = [([c], length inputText)]"
proof (cases inputText)
  case Nil
  with assms show ?thesis by simp
next
  case (Cons a as)
  with assms have "a = c" "set as \<subseteq> {c}" by auto
  then show ?thesis
    using Cons by (simp add: calculateCharacterFrequencies_def orZero_def countLoop_single)
qed

lemma buildLoop_short: "length q \<le> 1 \<Longrightarrow> buildLoop q = q"
  by (simp add: buildLoop.simps)

lemma root_single:
  assumes "set inputText = {c}"
  shows "root (buildHuffmanTree inputText h) =
           Some (HuffmanTreeNode [c] (length inputText) None None)"
  by (simp add: buildHuffmanTree_def calc_single [OF assms] createInitialNodeQueue_def
        buildLoop_short firstNode_def)

lemma root_empty: "root (buildHuffmanTree [] h) = None"
  by (simp add: buildHuffmanTree_def calculateCharacterFrequencies_def
        createInitialNodeQueue_def buildLoop_short firstNode_def)

lemma encodeLoop_acc: "encodeLoop m xs acc = acc @ encodeLoop m xs []"
proof (induction xs arbitrary: acc)
  case Nil
  show ?case by simp
next
  case (Cons x xs)
  show ?case
    using Cons.IH [of "acc @ orEmpty (m [x])"] Cons.IH [of "orEmpty (m [x])"] by simp
qed

lemma encodeLoop_Cons: "encodeLoop m (x # xs) [] = orEmpty (m [x]) @ encodeLoop m xs []"
  using encodeLoop_acc [of m xs "orEmpty (m [x])"] by simp

lemma encodeLoop_concat: "encodeLoop m xs [] = concat (map (\<lambda>c. orEmpty (m [c])) xs)"
  by (induction xs) (simp_all add: encodeLoop_Cons del: encodeLoop.simps(2))

lemma decodeLoop_None: "decodeLoop rt bits dec None = (dec, None)"
  by (cases bits) simp_all

lemma decodeLoop_append:
  "decodeLoop rt (pre @ bits) dec cur =
     (case decodeLoop rt pre dec cur of (dec', cur') \<Rightarrow> decodeLoop rt bits dec' cur')"
proof (induction pre arbitrary: dec cur)
  case Nil
  show ?case by simp
next
  case (Cons b pre)
  show ?case
    by (cases cur) (simp_all add: Cons.IH decodeLoop_None Let_def split: option.splits)
qed

lemma decode_leaf:
  "root h = Some (HuffmanTreeNode ch f None None) \<Longrightarrow> decodeText h bits = []"
  by (cases bits) (simp_all add: decodeText_def decodeLoop_None)

section \<open>The loop of the builder on regular trees\<close>

lemma frequency_nodeOf: "frequency (nodeOf t) = weight t"
  by (cases t) simp_all

lemma insort_key_map:
  "insort_key f (g x) (map g ys) = map g (insort_key (\<lambda>y. f (g y)) x ys)"
  by (induction ys) simp_all

lemma sort_key_map: "sort_key f (map g xs) = map g (sort_key (\<lambda>y. f (g y)) xs)"
  by (induction xs) (simp_all add: insort_key_map)

lemma sort_nodeOf: "sort_key frequency (map nodeOf ts) = map nodeOf (sort_key weight ts)"
  by (simp add: sort_key_map frequency_nodeOf)

lemma sort_shape:
  assumes "1 < length ts"
  obtains a b rest where "sort_key weight ts = a # b # rest"
proof -
  have "1 < length (sort_key weight ts)" using assms by simp
  then show ?thesis
    using that by (cases "sort_key weight ts" rule: list.exhaust; cases "tl (sort_key weight ts)") auto
qed

lemma hbuild_step:
  "sort_key weight ts = a # b # rest \<Longrightarrow> hbuild ts = hbuild (rest @ [HNode a b])"
proof -
  assume s: "sort_key weight ts = a # b # rest"
  then have "length ts = length (a # b # rest)" by (metis length_sort)
  then show ?thesis using s by (subst hbuild.simps) simp
qed

lemma hbuild_short: "length ts \<le> 1 \<Longrightarrow> hbuild ts = ts"
  by (subst hbuild.simps) simp

lemma buildLoop_step:
  "sort_key frequency q = a # b # rest \<Longrightarrow>
   buildLoop q =
     buildLoop (rest @ [HuffmanTreeNode [] (frequency a + frequency b) (Some a) (Some b)])"
proof -
  assume s: "sort_key frequency q = a # b # rest"
  then have "length q = length (a # b # rest)" by (metis length_sort)
  then show ?thesis using s by (subst buildLoop.simps) simp
qed

lemma buildLoop_nodeOf: "buildLoop (map nodeOf ts) = map nodeOf (hbuild ts)"
proof (induction ts rule: hbuild.induct)
  case (1 ts)
  show ?case
  proof (cases "1 < length ts")
    case False
    then show ?thesis by (simp add: hbuild_short buildLoop_short)
  next
    case True
    then obtain a b rest where s: "sort_key weight ts = a # b # rest"
      by (rule sort_shape)
    have "buildLoop (map nodeOf ts) =
            buildLoop (map nodeOf rest @
              [HuffmanTreeNode [] (frequency (nodeOf a) + frequency (nodeOf b))
                 (Some (nodeOf a)) (Some (nodeOf b))])"
      by (rule buildLoop_step) (simp add: sort_nodeOf s)
    also have "\<dots> = buildLoop (map nodeOf (rest @ [HNode a b]))"
      by (simp add: frequency_nodeOf)
    also have "\<dots> = map nodeOf (hbuild (rest @ [HNode a b]))"
      using "1.IH" [OF True s refl] .
    finally show ?thesis by (simp add: hbuild_step [OF s])
  qed
qed

lemma symbols_nonempty: "symbols t \<noteq> []"
  by (induction t) simp_all

lemma mset_allSymbols_sort: "mset (allSymbols (sort_key weight ts)) = mset (allSymbols ts)"
proof -
  have "mset (map symbols (sort_key weight ts)) = mset (map symbols ts)"
    by simp
  then show ?thesis
    unfolding allSymbols_def mset_concat by (metis mset_map sum_mset_sum_list)
qed

lemma mset_allSymbols_hbuild: "mset (allSymbols (hbuild ts)) = mset (allSymbols ts)"
proof (induction ts rule: hbuild.induct)
  case (1 ts)
  show ?case
  proof (cases "1 < length ts")
    case False
    then show ?thesis by (simp add: hbuild_short)
  next
    case True
    then obtain a b rest where s: "sort_key weight ts = a # b # rest"
      by (rule sort_shape)
    have "mset (allSymbols (hbuild ts)) = mset (allSymbols (rest @ [HNode a b]))"
      using "1.IH" [OF True s refl] by (simp add: hbuild_step [OF s])
    also have "\<dots> = mset (allSymbols (a # b # rest))"
      by (simp add: allSymbols_def)
    also have "\<dots> = mset (allSymbols ts)"
      using mset_allSymbols_sort [of ts] by (simp add: s)
    finally show ?thesis .
  qed
qed

lemma hbuild_length: "length (hbuild ts) = (if ts = [] then 0 else 1)"
proof (induction ts rule: hbuild.induct)
  case (1 ts)
  show ?case
  proof (cases "1 < length ts")
    case False
    then show ?thesis by (cases ts) (simp_all add: hbuild_short)
  next
    case True
    then obtain a b rest where s: "sort_key weight ts = a # b # rest"
      by (rule sort_shape)
    show ?thesis
      using "1.IH" [OF True s refl] True by (auto simp: hbuild_step [OF s])
  qed
qed

lemma hbuild_single:
  assumes "ts \<noteq> []"
  obtains T where "hbuild ts = [T]"
proof -
  have "length (hbuild ts) = 1" using assms by (simp add: hbuild_length)
  then show ?thesis using that by (cases "hbuild ts") auto
qed

lemma length_allSymbols_ge: "length ts \<le> length (allSymbols ts)"
proof (induction ts)
  case Nil
  show ?case by (simp add: allSymbols_def)
next
  case (Cons t ts)
  have "1 \<le> length (symbols t)" using symbols_nonempty [of t] by (cases "symbols t") simp_all
  then show ?case using Cons by (simp add: allSymbols_def)
qed

lemma hbuild_inner:
  assumes "hbuild ts = [T]" "2 \<le> length ts"
  obtains l r where "T = HNode l r"
proof -
  have "length (allSymbols (hbuild ts)) = length (allSymbols ts)"
    using mset_allSymbols_hbuild [of ts] by (metis size_mset)
  then have "2 \<le> length (symbols T)"
    using assms length_allSymbols_ge [of ts] by (simp add: allSymbols_def)
  then show ?thesis using that by (cases T) simp_all
qed

lemma leafCount_nodeOf: "leafCount (nodeOf t) = length (symbols t)"
  by (induction t) simp_all

lemma generate_nodeOf:
  "distinct (symbols t) \<Longrightarrow>
   generateCodesRecursively (Some (nodeOf t)) code m k =
     (if k \<in> (\<lambda>c. [c]) ` set (symbols t) then Some (code @ codeOf t (hd k)) else m k)"
proof (induction t arbitrary: code m k)
  case (HLeaf c w)
  show ?case by simp
next
  case (HNode l r)
  from HNode.prems have d: "distinct (symbols l)" "distinct (symbols r)"
    "set (symbols l) \<inter> set (symbols r) = {}" by simp_all
  show ?case
    using d(3) by (auto simp: HNode.IH(1) [OF d(1)] HNode.IH(2) [OF d(2)])
qed

section \<open>Decoding the codes of a tree\<close>

lemma decode_symbol:
  "c \<in> set (symbols (HNode l r)) \<Longrightarrow>
   decodeLoop rt (codeOf (HNode l r) c @ bits) dec (Some (nodeOf (HNode l r))) =
     decodeLoop rt bits (dec @ [c]) rt"
proof (induction "HNode l r" arbitrary: l r)
  case (HNode l r)
  show ?case
  proof (cases "c \<in> set (symbols l)")
    case True
    show ?thesis
    proof (cases l)
      case (HLeaf c' w)
      with True show ?thesis by simp
    next
      case (HNode l1 l2)
      have "decodeLoop rt (codeOf l c @ bits) dec (Some (nodeOf l)) = decodeLoop rt bits (dec @ [c]) rt"
        using HNode.hyps(1) [of l1 l2] True HNode by simp
      with True HNode show ?thesis by simp
    qed
  next
    case False
    with HNode.prems have cr: "c \<in> set (symbols r)" by simp
    show ?thesis
    proof (cases r)
      case (HLeaf c' w)
      with False cr show ?thesis by simp
    next
      case (HNode r1 r2)
      have "decodeLoop rt (codeOf r c @ bits) dec (Some (nodeOf r)) = decodeLoop rt bits (dec @ [c]) rt"
        using HNode.hyps(2) [of r1 r2] cr HNode by simp
      with False HNode show ?thesis by simp
    qed
  qed
qed

lemma decode_codes:
  "set xs \<subseteq> set (symbols (HNode l r)) \<Longrightarrow>
   decodeLoop (Some (nodeOf (HNode l r))) (concat (map (codeOf (HNode l r)) xs)) dec
       (Some (nodeOf (HNode l r))) =
     (dec @ xs, Some (nodeOf (HNode l r)))"
proof (induction xs arbitrary: dec)
  case Nil
  show ?case by simp
next
  case (Cons x xs)
  have "decodeLoop (Some (nodeOf (HNode l r)))
          (codeOf (HNode l r) x @ concat (map (codeOf (HNode l r)) xs)) dec
          (Some (nodeOf (HNode l r))) =
        decodeLoop (Some (nodeOf (HNode l r))) (concat (map (codeOf (HNode l r)) xs)) (dec @ [x])
          (Some (nodeOf (HNode l r)))"
    using Cons.prems by (intro decode_symbol) simp
  then show ?case
    using Cons.IH [of "dec @ [x]"] Cons.prems by (simp del: codeOf.simps nodeOf.simps)
qed

lemma calc_keys:
  "(k, n) \<in> set (calculateCharacterFrequencies inputText) \<Longrightarrow> \<exists>c \<in> set inputText. k = [c]"
proof -
  assume "(k, n) \<in> set (calculateCharacterFrequencies inputText)"
  then have "k \<in> fst ` set (countLoop inputText [])"
    unfolding calculateCharacterFrequencies_def by force
  then show ?thesis unfolding countLoop_keys_set by auto
qed

lemma initial_nodeOf:
  "createInitialNodeQueue (calculateCharacterFrequencies inputText) =
     map nodeOf (initialTrees (calculateCharacterFrequencies inputText))"
  unfolding createInitialNodeQueue_def initialTrees_def
  by (auto dest: calc_keys)

lemma initial_symbols_gen:
  "\<forall>(k, n) \<in> set fm. \<exists>c. k = [c] \<Longrightarrow>
   map (\<lambda>c. [c]) (allSymbols (initialTrees fm)) = map fst fm"
  by (induction fm) (auto simp: allSymbols_def initialTrees_def)

lemma initial_symbols:
  "map (\<lambda>c. [c]) (allSymbols (initialTrees (calculateCharacterFrequencies inputText))) =
     map fst (calculateCharacterFrequencies inputText)"
  by (rule initial_symbols_gen) (auto dest: calc_keys)

section \<open>The tree built from a text\<close>

lemma calc_keys_eq:
  "fst ` set (calculateCharacterFrequencies inputText) = (\<lambda>c. [c]) ` set inputText"
  by (simp add: calculateCharacterFrequencies_def countLoop_keys_set)

lemma calc_distinct: "distinct (map fst (calculateCharacterFrequencies inputText))"
  by (simp add: calculateCharacterFrequencies_def countLoop_distinct)

lemma initial_set:
  "set (allSymbols (initialTrees (calculateCharacterFrequencies inputText))) = set inputText"
proof -
  have "(\<lambda>c. [c]) ` set (allSymbols (initialTrees (calculateCharacterFrequencies inputText))) =
          (\<lambda>c. [c]) ` set inputText"
    using initial_symbols [of inputText] calc_keys_eq [of inputText]
    by (metis list.set_map)
  then show ?thesis by (simp add: inj_image_eq_iff inj_on_def)
qed

lemma initial_distinct:
  "distinct (allSymbols (initialTrees (calculateCharacterFrequencies inputText)))"
proof -
  have "distinct (map (\<lambda>c. [c]) (allSymbols (initialTrees (calculateCharacterFrequencies inputText))))"
    unfolding initial_symbols by (rule calc_distinct)
  then show ?thesis by (simp add: distinct_map)
qed

lemma initial_length:
  "length (initialTrees (calculateCharacterFrequencies inputText)) = card (set inputText)"
proof -
  have "length (initialTrees (calculateCharacterFrequencies inputText)) =
          length (map fst (calculateCharacterFrequencies inputText))"
    by (simp add: initialTrees_def)
  also have "\<dots> = card (set (map fst (calculateCharacterFrequencies inputText)))"
    using calc_distinct [of inputText] by (simp only: distinct_card)
  also have "\<dots> = card ((\<lambda>c. [c]) ` set inputText)"
    using calc_keys_eq [of inputText] by simp
  also have "\<dots> = card (set inputText)"
    by (rule card_image) (simp add: inj_on_def)
  finally show ?thesis .
qed

lemma root_build:
  "root (buildHuffmanTree inputText h) =
     firstNode (map nodeOf (hbuild (initialTrees (calculateCharacterFrequencies inputText))))"
  by (simp add: buildHuffmanTree_def Let_def initial_nodeOf buildLoop_nodeOf)

lemma built_tree:
  assumes "inputText \<noteq> []"
  obtains T where "hbuild (initialTrees (calculateCharacterFrequencies inputText)) = [T]"
    and "root (buildHuffmanTree inputText h) = Some (nodeOf T)"
    and "set (symbols T) = set inputText"
    and "distinct (symbols T)"
    and "length (symbols T) = card (set inputText)"
proof -
  let ?ts = "initialTrees (calculateCharacterFrequencies inputText)"
  have "0 < card (set inputText)" using assms by (simp add: card_gt_0_iff)
  then have "?ts \<noteq> []" using initial_length [of inputText] by auto
  then obtain T where T: "hbuild ?ts = [T]" by (rule hbuild_single)
  have m: "mset (symbols T) = mset (allSymbols ?ts)"
    using mset_allSymbols_hbuild [of ?ts] by (simp add: T allSymbols_def)
  have s: "set (symbols T) = set inputText"
    using mset_eq_setD [OF m] by (simp add: initial_set)
  have d: "distinct (symbols T)"
    using mset_eq_imp_distinct_iff [OF m] by (simp add: initial_distinct)
  have "length (symbols T) = card (set (symbols T))" using d by (simp add: distinct_card)
  then have l: "length (symbols T) = card (set inputText)" by (simp add: s)
  show ?thesis
    using that [OF T _ s d l] by (simp add: root_build T firstNode_def)
qed

lemma built_inner:
  assumes "hbuild (initialTrees (calculateCharacterFrequencies inputText)) = [T]"
    and "2 \<le> card (set inputText)"
  obtains l r where "T = HNode l r"
  using hbuild_inner [OF assms(1)] assms(2) initial_length [of inputText] by auto

lemma codes_built:
  assumes "root (buildHuffmanTree inputText h) = Some (nodeOf T)" "distinct (symbols T)"
  shows "encodingMap (generateHuffmanCodes (buildHuffmanTree inputText h)) k =
           (if k \<in> (\<lambda>c. [c]) ` set (symbols T) then Some (codeOf T (hd k)) else None)"
  using assms by (simp add: generateHuffmanCodes_def generate_nodeOf)

lemma codeOf_prefix_free:
  "distinct (symbols t) \<Longrightarrow> a \<in> set (symbols t) \<Longrightarrow> b \<in> set (symbols t) \<Longrightarrow> a \<noteq> b \<Longrightarrow>
   \<not> prefix (codeOf t a) (codeOf t b)"
  by (induction t) auto

lemma roundtrip_two_symbols:
  assumes "2 \<le> card (set inputText)"
  shows "decodeText (generateHuffmanCodes (buildHuffmanTree inputText h))
           (encodeText (generateHuffmanCodes (buildHuffmanTree inputText h)) inputText) = inputText"
proof -
  let ?h = "generateHuffmanCodes (buildHuffmanTree inputText h)"
  from assms have "inputText \<noteq> []" by auto
  then obtain T where T: "hbuild (initialTrees (calculateCharacterFrequencies inputText)) = [T]"
    "root (buildHuffmanTree inputText h) = Some (nodeOf T)"
    "set (symbols T) = set inputText" "distinct (symbols T)"
    by (rule built_tree)
  obtain l r where lr: "T = HNode l r" using T(1) assms by (rule built_inner)
  have "orEmpty (encodingMap ?h [c]) = codeOf T c" if "c \<in> set inputText" for c
    using that by (simp add: codes_built [OF T(2,4)] T(3) orEmpty_def)
  then have enc: "encodeText ?h inputText = concat (map (codeOf T) inputText)"
    unfolding encodeText_def encodeLoop_concat by (simp cong: map_cong)
  have rt: "root ?h = Some (nodeOf T)" by (simp add: generateHuffmanCodes_def T(2))
  have "set inputText \<subseteq> set (symbols (HNode l r))" using T(3) lr by simp
  from decode_codes [OF this, of "[]"] show ?thesis
    unfolding decodeText_def rt enc lr by simp
qed

lemma leaf_count_two:
  assumes "2 \<le> card (set inputText)"
  shows "\<exists>T. root (buildHuffmanTree inputText h) = Some T \<and> leafCount T = card (set inputText)"
proof -
  from assms have "inputText \<noteq> []" by auto
  then obtain T where "root (buildHuffmanTree inputText h) = Some (nodeOf T)"
    "length (symbols T) = card (set inputText)"
    by (rule built_tree)
  then show ?thesis by (simp add: leafCount_nodeOf)
qed

section \<open>Depth and frequency\<close>

lemma rise_short: "length ts \<le> 1 \<Longrightarrow> rise ts t = 0"
  by (subst rise.simps) simp

lemma rise_step:
  assumes "sort_key weight ts = a # b # rest"
  shows "rise ts t =
           (if t = a \<or> t = b then Suc (rise (rest @ [HNode a b]) (HNode a b))
            else rise (rest @ [HNode a b]) t)"
proof -
  from assms have "length ts = length (a # b # rest)" by (metis length_sort)
  then show ?thesis using assms by (subst rise.simps) simp
qed

lemma filter_insort_first:
  "P x \<Longrightarrow> \<forall>y \<in> set ys. P y \<longrightarrow> f x \<le> f y \<Longrightarrow>
   filter P (insort_key f x ys) = x # filter P ys"
  by (induction ys) auto

lemma filter_sort_sorted:
  "sorted (map f (filter P xs)) \<Longrightarrow> filter P (sort_key f xs) = filter P xs"
proof (induction xs)
  case Nil
  show ?case by simp
next
  case (Cons x xs)
  show ?case
  proof (cases "P x")
    case False
    with Cons show ?thesis by (simp add: filter_insort_triv)
  next
    case True
    with Cons.prems have le: "\<forall>y \<in> set xs. P y \<longrightarrow> f x \<le> f y"
      and "sorted (map f (filter P xs))" by auto
    then have ih: "filter P (sort_key f xs) = filter P xs" by (rule_tac Cons.IH)
    have "filter P (insort_key f x (sort_key f xs)) = x # filter P (sort_key f xs)"
      using True le by (intro filter_insort_first) simp_all
    then show ?thesis using True ih by simp
  qed
qed

lemma distinct_trees: "distinct (allSymbols ts) \<Longrightarrow> distinct ts"
proof (induction ts)
  case Nil
  show ?case by simp
next
  case (Cons t ts)
  from Cons.prems have d: "distinct (allSymbols ts)"
    and disj: "set (symbols t) \<inter> set (allSymbols ts) = {}"
    by (simp_all add: allSymbols_def)
  have "t \<notin> set ts"
  proof
    assume "t \<in> set ts"
    then have "set (symbols t) \<subseteq> set (allSymbols ts)" by (auto simp: allSymbols_def)
    then have "set (symbols t) \<inter> set (allSymbols ts) = set (symbols t)" by (rule Int_absorb2)
    with disj have "set (symbols t) = {}" by simp
    then show False using symbols_nonempty [of t] by simp
  qed
  with Cons.IH [OF d] show ?case by simp
qed

lemma sorted_parts:
  assumes "sort_key weight ts = a # b # rest"
  shows "weight a \<le> weight b" and "\<forall>z \<in> set rest. weight b \<le> weight z"
    and "set ts = insert a (insert b (set rest))"
proof -
  have "sorted (map weight (sort_key weight ts))" by (rule sorted_sort_key)
  then have s: "sorted (map weight (a # b # rest))" by (simp only: assms)
  from s show "weight a \<le> weight b" by simp
  from s show "\<forall>z \<in> set rest. weight b \<le> weight z" by simp
  have "set ts = set (sort_key weight ts)" by simp
  then show "set ts = insert a (insert b (set rest))" by (simp only: assms) simp
qed

lemma distinct_parts:
  assumes "sort_key weight ts = a # b # rest" "distinct (allSymbols ts)"
  shows "a \<noteq> b" and "a \<notin> set rest" and "b \<notin> set rest"
    and "distinct (allSymbols (rest @ [HNode a b]))"
proof -
  have "distinct (sort_key weight ts)" using distinct_trees [OF assms(2)] by simp
  then have d: "distinct (a # b # rest)" by (simp only: assms)
  from d show "a \<noteq> b" "a \<notin> set rest" "b \<notin> set rest" by simp_all
  have "mset (allSymbols (rest @ [HNode a b])) = mset (allSymbols (a # b # rest))"
    by (simp add: allSymbols_def)
  also have "\<dots> = mset (allSymbols ts)"
    using mset_allSymbols_sort [of ts] by (simp only: assms)
  finally have "mset (allSymbols (rest @ [HNode a b])) = mset (allSymbols ts)" .
  from mset_eq_imp_distinct_iff [OF this] show "distinct (allSymbols (rest @ [HNode a b]))"
    using assms(2) by simp
qed

lemma queueInv_step:
  assumes s: "sort_key weight ts = a # b # rest" and inv: "queueInv ts"
  shows "queueInv (rest @ [HNode a b])"
proof -
  note p = sorted_parts [OF s]
  from inv have d: "distinct (allSymbols ts)"
    and so: "sorted (map weight (filter isNode ts))"
    and ch: "\<And>l r z. HNode l r \<in> set ts \<Longrightarrow> z \<in> set ts \<Longrightarrow>
               weight l \<le> weight z \<and> weight r \<le> weight z"
    by (auto simp: queueInv_def)
  have 1: "distinct (allSymbols (rest @ [HNode a b]))"
    using distinct_parts(4) [OF s d] .
  have "sorted (map weight (filter isNode (sort_key weight ts)))"
    using sorted_filter [OF sorted_sort_key] .
  then have "sorted (map weight (filter isNode [a, b]) @ map weight (filter isNode rest))"
    unfolding s by (metis append_Cons append_Nil filter_append map_append)
  then have sr: "sorted (map weight (filter isNode rest))"
    by (simp only: sorted_append)
  have "weight n \<le> weight (HNode a b)" if "n \<in> set rest" "isNode n" for n
  proof -
    from that(2) obtain l r where n: "n = HNode l r" by (cases n) auto
    then have "HNode l r \<in> set ts" using that(1) p(3) by simp
    from ch [OF this, of a] ch [OF this, of b] show ?thesis
      using p(3) n by simp
  qed
  then have 2: "sorted (map weight (filter isNode (rest @ [HNode a b])))"
    using sr by (auto simp: sorted_append)
  have 3: "weight l \<le> weight z \<and> weight r \<le> weight z"
    if "HNode l r \<in> set (rest @ [HNode a b])" "z \<in> set (rest @ [HNode a b])" for l r z
  proof (cases "HNode l r = HNode a b")
    case True
    then show ?thesis using that(2) p(1,2) by auto
  next
    case False
    with that(1) have m: "HNode l r \<in> set ts" using p(3) by auto
    show ?thesis
    proof (cases "z = HNode a b")
      case True
      then show ?thesis using ch [OF m, of a] p(3) by simp
    next
      case False
      with that(2) have "z \<in> set ts" using p(3) by simp
      then show ?thesis using ch [OF m] by simp
    qed
  qed
  show ?thesis unfolding queueInv_def
  proof (intro conjI allI impI ballI)
    show "distinct (allSymbols (rest @ [HNode a b]))" by (rule 1)
    show "sorted (map weight (filter isNode (rest @ [HNode a b])))" by (rule 2)
  next
    fix l r z
    assume "HNode l r \<in> set (rest @ [HNode a b])" "z \<in> set (rest @ [HNode a b])"
    then show "weight l \<le> weight z" "weight r \<le> weight z" using 3 by blast+
  qed
qed

lemma rise_order:
  assumes "queueInv ts"
  shows "(\<forall>x \<in> set ts. \<forall>y \<in> set ts. weight y < weight x \<longrightarrow> rise ts x \<le> rise ts y) \<and>
         sorted_wrt (\<lambda>x y. rise ts y \<le> rise ts x) (filter isNode ts) \<and>
         (filter isNode ts \<noteq> [] \<longrightarrow>
            (\<forall>x \<in> set ts. rise ts x \<le> Suc (rise ts (last (filter isNode ts)))))"
  using assms
proof (induction ts rule: hbuild.induct)
  case (1 ts)
  show ?case
  proof (cases "1 < length ts")
    case False
    then show ?thesis by (simp add: rise_short)
  next
    case True
    then obtain a b rest where s: "sort_key weight ts = a # b # rest"
      by (rule sort_shape)
    let ?ab = "HNode a b"
    let ?R' = "rise (rest @ [?ab])"
    let ?N = "filter isNode ts"
    note p = sorted_parts [OF s]
    from "1.prems" have d: "distinct (allSymbols ts)"
      and so: "sorted (map weight (filter isNode ts))"
      by (simp_all add: queueInv_def)
    note dp = distinct_parts [OF s d]
    have inv': "queueInv (rest @ [?ab])" using s "1.prems" by (rule queueInv_step)
    note IH = "1.IH" [OF True s refl inv']
    have A': "?R' x \<le> ?R' y" if "x \<in> set rest" "y \<in> set rest" "weight y < weight x" for x y
      using IH that by simp
    have B': "sorted_wrt (\<lambda>x y. ?R' y \<le> ?R' x) (filter isNode rest @ [?ab])"
      using IH by simp
    have C': "?R' x \<le> Suc (?R' ?ab)" if "x \<in> set rest" for x
      using IH that by simp
    have B1: "sorted_wrt (\<lambda>x y. ?R' y \<le> ?R' x) (filter isNode rest)"
      using B' by (simp only: sorted_wrt_append)
    have B2: "?R' ?ab \<le> ?R' n" if "n \<in> set rest" "isNode n" for n
      using B' that by (simp add: sorted_wrt_append)
    have Ra: "rise ts a = Suc (?R' ?ab)" and Rb: "rise ts b = Suc (?R' ?ab)"
      by (simp_all add: rise_step [OF s])
    have Rr: "rise ts x = ?R' x" if "x \<in> set rest" for x
      using that dp(2,3) by (auto simp: rise_step [OF s])
    have "?N = filter isNode ([a, b] @ rest)"
      using filter_sort_sorted [OF so] by (simp only: s append_Cons append_Nil)
    then have N: "?N = filter isNode [a, b] @ filter isNode rest"
      by (simp only: filter_append)
    have a: "rise ts x \<le> rise ts y" if "x \<in> set ts" "y \<in> set ts" "weight y < weight x" for x y
    proof (cases "x \<in> set rest")
      case True
      show ?thesis
      proof (cases "y \<in> set rest")
        case True
        with \<open>x \<in> set rest\<close> that(3) show ?thesis by (simp add: Rr A')
      next
        case False
        with that(2) have "y = a \<or> y = b" by (simp add: p(3))
        then have "rise ts y = Suc (?R' ?ab)" using Ra Rb by auto
        then show ?thesis using True by (simp add: Rr C')
      qed
    next
      case False
      with that(1) have x: "x = a \<or> x = b" by (simp add: p(3))
      have "y \<notin> set rest"
      proof
        assume "y \<in> set rest"
        then have "weight b \<le> weight y" using p(2) by simp
        with x p(1) that(3) show False by auto
      qed
      with that(2) have "y = a \<or> y = b" by (simp add: p(3))
      with x show ?thesis using Ra Rb by auto
    qed
    have b1: "sorted_wrt (\<lambda>x y. rise ts y \<le> rise ts x) (filter isNode [a, b])"
      by (rule sorted_wrt_mono_rel [of _ "\<lambda>_ _. True"]) (auto simp: Ra Rb split: if_splits)
    have b2: "sorted_wrt (\<lambda>x y. rise ts y \<le> rise ts x) (filter isNode rest)"
      using B1 by (rule sorted_wrt_mono_rel [rotated]) (simp add: Rr)
    have b3: "rise ts y \<le> rise ts x"
      if "x \<in> set (filter isNode [a, b])" "y \<in> set (filter isNode rest)" for x y
    proof -
      from that(1) have "x = a \<or> x = b" by (auto split: if_splits)
      then have "rise ts x = Suc (?R' ?ab)" using Ra Rb by auto
      moreover from that(2) have "y \<in> set rest" by simp
      ultimately show ?thesis by (simp add: Rr C')
    qed
    have b: "sorted_wrt (\<lambda>x y. rise ts y \<le> rise ts x) ?N"
      unfolding N sorted_wrt_append using b1 b2 b3 by blast
    have c: "rise ts x \<le> Suc (rise ts (last ?N))" if "?N \<noteq> []" "x \<in> set ts" for x
    proof -
      have x: "rise ts x \<le> Suc (Suc (?R' ?ab))" "x \<in> set rest \<Longrightarrow> rise ts x \<le> Suc (?R' ?ab)"
        using that(2) Ra Rb Rr C' [of x] by (auto simp: p(3))
      show ?thesis
      proof (cases "filter isNode rest = []")
        case True
        then have "last ?N \<in> set (filter isNode [a, b])"
          using that(1) N by (metis append_Nil2 last_in_set)
        then have "last ?N = a \<or> last ?N = b" by (auto split: if_splits)
        then have "rise ts (last ?N) = Suc (?R' ?ab)" using Ra Rb by auto
        then show ?thesis using x(1) by simp
      next
        case False
        then have l: "last ?N = last (filter isNode rest)" unfolding N by (rule last_appendR)
        have "last (filter isNode rest) \<in> set (filter isNode rest)"
          using False by (rule last_in_set)
        then have m: "last ?N \<in> set rest" "isNode (last ?N)" by (simp_all add: l)
        have "?R' ?ab \<le> rise ts (last ?N)" using B2 [OF m] Rr [OF m(1)] by simp
        then show ?thesis using x(1) x(2) Ra Rb that(2) by (auto simp: p(3))
      qed
    qed
    show ?thesis using a b c by blast
  qed
qed

lemma rise_code:
  assumes "distinct (allSymbols ts)" "t \<in> set ts" "c \<in> set (symbols t)" "hbuild ts = [T]"
  shows "length (codeOf T c) = length (codeOf t c) + rise ts t"
  using assms
proof (induction ts arbitrary: t rule: hbuild.induct)
  case (1 ts)
  show ?case
  proof (cases "1 < length ts")
    case False
    then have "hbuild ts = ts" by (simp add: hbuild_short)
    with "1.prems"(2,4) have "t = T" by simp
    then show ?thesis using False by (simp add: rise_short)
  next
    case True
    then obtain a b rest where s: "sort_key weight ts = a # b # rest"
      by (rule sort_shape)
    let ?ab = "HNode a b"
    note p = sorted_parts [OF s]
    note dp = distinct_parts [OF s "1.prems"(1)]
    have T: "hbuild (rest @ [?ab]) = [T]" using "1.prems"(4) by (simp add: hbuild_step [OF s])
    note IH = "1.IH" [OF True s refl dp(4) _ _ T]
    have ab: "length (codeOf T c) = length (codeOf ?ab c) + rise (rest @ [?ab]) ?ab"
      if "c \<in> set (symbols ?ab)"
      using that by (intro IH) simp_all
    have disj: "set (symbols a) \<inter> set (symbols b) = {}"
      using dp(4) by (auto simp: allSymbols_def)
    show ?thesis
    proof (cases "t = a \<or> t = b")
      case False
      with "1.prems"(2) have "t \<in> set (rest @ [?ab])" by (simp add: p(3))
      from IH [OF this "1.prems"(3)] show ?thesis using False by (simp add: rise_step [OF s])
    next
      case True
      then have r: "rise ts t = Suc (rise (rest @ [?ab]) ?ab)" by (simp add: rise_step [OF s])
      from True "1.prems"(3) have m: "c \<in> set (symbols ?ab)" by auto
      have "length (codeOf ?ab c) = Suc (length (codeOf t c))"
        using True "1.prems"(3) disj by auto
      with ab [OF m] r show ?thesis by simp
    qed
  qed
qed

lemma mapGet_mem: "mapGet m k = Some v \<Longrightarrow> (k, v) \<in> set m"
  by (induction m) (auto split: if_splits)

lemma initial_inv: "queueInv (initialTrees (calculateCharacterFrequencies inputText))"
proof -
  have "filter isNode (initialTrees fm) = []" for fm :: "('a list \<times> nat) list"
    by (induction fm) (auto simp: initialTrees_def)
  moreover have "HNode l r \<notin> set (initialTrees fm)" for l r and fm :: "('a list \<times> nat) list"
    by (auto simp: initialTrees_def)
  ultimately show ?thesis
    by (simp add: queueInv_def initial_distinct)
qed

section \<open>The properties of the specification\<close>

text \<open>
  C4 (frequency table).  For every input, the table of the analyzer gives every symbol of
  the input a positive count, its keys are exactly the symbols of the input, each once, and
  its counts add up to the length of the input.
\<close>

theorem frequency_table:
  "(\<forall>c \<in> set inputText.
      \<exists>n. mapGet (calculateCharacterFrequencies inputText) [c] = Some n \<and> 0 < n) \<and>
   fst ` set (calculateCharacterFrequencies inputText) = (\<lambda>c. [c]) ` set inputText \<and>
   distinct (map fst (calculateCharacterFrequencies inputText)) \<and>
   sum_list (map snd (calculateCharacterFrequencies inputText)) = length inputText"
proof (intro conjI ballI)
  fix c assume "c \<in> set inputText"
  then show "\<exists>n. mapGet (calculateCharacterFrequencies inputText) [c] = Some n \<and> 0 < n"
    by (simp add: calc_get count_list_pos)
next
  show "fst ` set (calculateCharacterFrequencies inputText) = (\<lambda>c. [c]) ` set inputText"
    by (rule calc_keys_eq)
  show "distinct (map fst (calculateCharacterFrequencies inputText))"
    by (rule calc_distinct)
  show "sum_list (map snd (calculateCharacterFrequencies inputText)) = length inputText"
    by (simp add: calculateCharacterFrequencies_def countLoop_sum)
qed

theorem frequency_table_witness:
  "(\<exists>n. mapGet (calculateCharacterFrequencies ''aab'') ''a'' = Some n \<and> 0 < n) \<and>
   (\<exists>n. mapGet (calculateCharacterFrequencies ''aab'') ''b'' = Some n \<and> 0 < n) \<and>
   fst ` set (calculateCharacterFrequencies ''aab'') = {''a'', ''b''} \<and>
   distinct (map fst (calculateCharacterFrequencies ''aab'')) \<and>
   sum_list (map snd (calculateCharacterFrequencies ''aab'')) = 3"
  using frequency_table [of "''aab''"] by simp

text \<open>
  C5 (leaf count).  For an input with at least two distinct symbols the built tree has as
  many leaves as the input has distinct symbols; for an input with exactly one distinct
  symbol the built tree is a single leaf that holds this symbol.
\<close>

theorem leaf_count:
  "(2 \<le> card (set inputText) \<longrightarrow>
      (\<exists>T. root (buildHuffmanTree inputText h) = Some T \<and> leafCount T = card (set inputText))) \<and>
   (set inputText' = {c} \<longrightarrow>
      root (buildHuffmanTree inputText' h) =
        Some (HuffmanTreeNode [c] (length inputText') None None))"
  using leaf_count_two [of inputText h] root_single [of inputText' c h] by blast

theorem leaf_count_witness:
  "2 \<le> card (set ''aaabbc'') \<and>
   (\<exists>T. root (buildHuffmanTree ''aaabbc'' newHuffmanCompression) = Some T \<and> leafCount T = 3) \<and>
   set ''aaa'' = {CHR ''a''} \<and>
   root (buildHuffmanTree ''aaa'' newHuffmanCompression) =
     Some (HuffmanTreeNode ''a'' 3 None None)"
proof -
  have k: "card (set ''aaabbc'') = 3" by simp
  then have c: "2 \<le> card (set ''aaabbc'')" by simp
  have s: "set ''aaa'' = {CHR ''a''}" by simp
  have l: "length ''aaa'' = 3" by simp
  note t = leaf_count [of "''aaabbc''" newHuffmanCompression "''aaa''" "CHR ''a''"]
  from t c
  have A: "\<exists>T. root (buildHuffmanTree ''aaabbc'' newHuffmanCompression) = Some T \<and>
                leafCount T = card (set ''aaabbc'')"
    by blast
  from t s
  have B: "root (buildHuffmanTree ''aaa'' newHuffmanCompression) =
             Some (HuffmanTreeNode ''a'' (length ''aaa'') None None)"
    by blast
  from A [unfolded k] B [unfolded l] c s show ?thesis by blast
qed

text \<open>
  C6 (single symbol).  For a non-empty input with exactly one distinct symbol, the single
  leaf is the root and code generation gives this symbol the empty string as its code; the
  table has no other entry.
\<close>

theorem single_symbol_code:
  assumes "set inputText = {c}"
  shows "root (buildHuffmanTree inputText h) =
           Some (HuffmanTreeNode [c] (length inputText) None None) \<and>
         encodingMap (generateHuffmanCodes (buildHuffmanTree inputText h)) = [[c] \<mapsto> []]"
  by (simp add: generateHuffmanCodes_def root_single [OF assms])

theorem single_symbol_code_witness:
  "set ''aaa'' = {CHR ''a''} \<and>
   root (buildHuffmanTree ''aaa'' newHuffmanCompression) =
     Some (HuffmanTreeNode ''a'' 3 None None) \<and>
   encodingMap (generateHuffmanCodes (buildHuffmanTree ''aaa'' newHuffmanCompression)) ''a'' =
     Some []"
proof -
  have s: "set ''aaa'' = {CHR ''a''}" by simp
  show ?thesis
    using single_symbol_code [OF s, of newHuffmanCompression] s by simp
qed

text \<open>
  C7 (missing codes are skipped).  For every input and every code table, the encoded text is
  the concatenation, in input order, of the codes of those input symbols that have an entry
  in the table; a symbol without an entry contributes nothing.  The encoder has no failing
  branch.
\<close>

theorem encode_skips_missing:
  "encodeText h inputText =
     concat (map (\<lambda>c. the (encodingMap h [c]))
               (filter (\<lambda>c. encodingMap h [c] \<noteq> None) inputText))"
  unfolding encodeText_def encodeLoop_concat
  by (induction inputText) (auto simp: orEmpty_def)

text \<open>
  C8 (falling off the tree).  When the decoder has consumed the bits \<open>pre\<close>, stands on a node
  and the next bit selects a child that is absent, it returns the text decoded so far,
  whatever bits follow.
\<close>

theorem decode_falls_off:
  assumes "decodeLoop (root h) pre [] (root h) = (dec, Some node)"
    and "(if b = CHR ''0'' then leftChild node else rightChild node) = None"
  shows "decodeText h (pre @ b # rest) = dec"
  using assms by (simp add: decodeText_def decodeLoop_append decodeLoop_None)

theorem decode_falls_off_witness:
  "decodeLoop (Some (HuffmanTreeNode [] 2 (Some (HuffmanTreeNode ''a'' 2 None None)) None))
     ''0'' []
     (Some (HuffmanTreeNode [] 2 (Some (HuffmanTreeNode ''a'' 2 None None)) None)) =
     (''a'', Some (HuffmanTreeNode [] 2 (Some (HuffmanTreeNode ''a'' 2 None None)) None)) \<and>
   rightChild (HuffmanTreeNode [] 2 (Some (HuffmanTreeNode ''a'' 2 None None)) None) = None \<and>
   decodeText
     \<lparr>root = Some (HuffmanTreeNode [] 2 (Some (HuffmanTreeNode ''a'' 2 None None)) None),
      encodingMap = Map.empty\<rparr> ''010'' = ''a''"
proof -
  let ?n = "HuffmanTreeNode [] 2 (Some (HuffmanTreeNode ''a'' 2 None None)) None"
  let ?h = "\<lparr>root = Some ?n, encodingMap = Map.empty\<rparr>"
  have 1: "decodeLoop (root ?h) ''0'' [] (root ?h) = (''a'', Some ?n)" by simp
  have 2: "(if CHR ''1'' = CHR ''0'' then leftChild ?n else rightChild ?n) = None" by simp
  from decode_falls_off [OF 1 2, of "''0''"] 1 show ?thesis by simp
qed

text \<open>
  C9 (empty input).  On the empty input the analyzer yields the empty table, the builder
  yields no tree, code generation yields the empty code table, encoding the empty text
  yields the empty bit string, and decoding the empty bit string without a tree yields the
  empty text.
\<close>

theorem empty_input:
  "calculateCharacterFrequencies ([] :: 'a list) = [] \<and>
   firstNode (buildLoop (createInitialNodeQueue ([] :: ('a list \<times> nat) list))) = None \<and>
   root (buildHuffmanTree [] (h :: 'a HuffmanCompression)) = None \<and>
   encodingMap (generateHuffmanCodes (buildHuffmanTree [] h)) = Map.empty \<and>
   encodeText h [] = [] \<and>
   decodeText (h\<lparr>root := None\<rparr>) [] = [] \<and>
   decodeText (generateHuffmanCodes (buildHuffmanTree [] h))
     (encodeText (generateHuffmanCodes (buildHuffmanTree [] h)) []) = []"
  by (simp add: calculateCharacterFrequencies_def createInitialNodeQueue_def buildLoop_short
        firstNode_def root_empty generateHuffmanCodes_def encodeText_def decodeText_def)

text \<open>
  C10 (decoding with a single leaf).  When the tree is a single leaf, the decoder returns the
  empty text for every bit string: the first bit moves to an absent child, the loop is left
  with no current node and nothing has been emitted.  The tree built from an input with
  exactly one distinct symbol is such a leaf.
\<close>

theorem single_leaf_decode:
  "(root h = Some (HuffmanTreeNode ch f None None) \<longrightarrow>
      decodeText h bits = [] \<and> decodeLoop (root h) (b # bits) [] (root h) = ([], None)) \<and>
   (set inputText = {c} \<longrightarrow>
      decodeText (generateHuffmanCodes (buildHuffmanTree inputText h')) bits = [])"
proof (intro conjI impI)
  assume r: "root h = Some (HuffmanTreeNode ch f None None)"
  then show "decodeText h bits = []" by (rule decode_leaf)
  from r show "decodeLoop (root h) (b # bits) [] (root h) = ([], None)"
    by (simp add: decodeLoop_None)
next
  assume "set inputText = {c}"
  then have "root (generateHuffmanCodes (buildHuffmanTree inputText h')) =
               Some (HuffmanTreeNode [c] (length inputText) None None)"
    by (simp add: generateHuffmanCodes_def root_single)
  then show "decodeText (generateHuffmanCodes (buildHuffmanTree inputText h')) bits = []"
    by (rule decode_leaf)
qed

theorem single_leaf_decode_witness:
  "root \<lparr>root = Some (HuffmanTreeNode ''a'' 3 None None), encodingMap = Map.empty\<rparr> =
     Some (HuffmanTreeNode ''a'' 3 None None) \<and>
   decodeText \<lparr>root = Some (HuffmanTreeNode ''a'' 3 None None), encodingMap = Map.empty\<rparr>
     ''0110'' = [] \<and>
   set ''aaa'' = {CHR ''a''} \<and>
   decodeText (generateHuffmanCodes (buildHuffmanTree ''aaa'' newHuffmanCompression)) ''0110'' =
     []"
proof -
  let ?h = "\<lparr>root = Some (HuffmanTreeNode ''a'' 3 None None), encodingMap = Map.empty\<rparr>"
  have r: "root ?h = Some (HuffmanTreeNode ''a'' 3 None None)" by simp
  have s: "set ''aaa'' = {CHR ''a''}" by simp
  show ?thesis
    using single_leaf_decode
            [of ?h "''a''" 3 "''0110''" "CHR ''0''" "''aaa''" "CHR ''a''" newHuffmanCompression]
          r s
    by simp
qed

text \<open>
  C2 (prefix-free codes).  In the code table generated from the tree built for an input,
  the codes of two distinct symbols are never a prefix of one another.  This holds for
  every input, so in particular for the inputs with at least two distinct symbols.
\<close>

theorem codes_prefix_free:
  assumes "encodingMap (generateHuffmanCodes (buildHuffmanTree inputText h)) a = Some ca"
    and "encodingMap (generateHuffmanCodes (buildHuffmanTree inputText h)) b = Some cb"
    and "a \<noteq> b"
  shows "\<not> prefix ca cb \<and> \<not> prefix cb ca"
proof (cases "inputText = []")
  case True
  then show ?thesis
    using assms(1) by (simp add: generateHuffmanCodes_def root_empty)
next
  case False
  then obtain T where T: "root (buildHuffmanTree inputText h) = Some (nodeOf T)"
    "distinct (symbols T)"
    by (rule built_tree)
  from assms(1) obtain x where x: "a = [x]" "x \<in> set (symbols T)" "ca = codeOf T x"
    unfolding codes_built [OF T] by (auto split: if_splits)
  from assms(2) obtain y where y: "b = [y]" "y \<in> set (symbols T)" "cb = codeOf T y"
    unfolding codes_built [OF T] by (auto split: if_splits)
  from assms(3) x y have "x \<noteq> y" by simp
  then show ?thesis
    using codeOf_prefix_free [OF T(2) x(2) y(2)] codeOf_prefix_free [OF T(2) y(2) x(2)]
    by (auto simp: x y)
qed

theorem codes_prefix_free_witness:
  "encodingMap (generateHuffmanCodes (buildHuffmanTree ''aaabbc'' newHuffmanCompression)) ''a'' =
     Some ''0'' \<and>
   encodingMap (generateHuffmanCodes (buildHuffmanTree ''aaabbc'' newHuffmanCompression)) ''c'' =
     Some ''10'' \<and>
   ''a'' \<noteq> ''c'' \<and> \<not> prefix ''0'' ''10'' \<and> \<not> prefix ''10'' ''0''"
proof -
  have 1: "encodingMap (generateHuffmanCodes (buildHuffmanTree ''aaabbc'' newHuffmanCompression))
             ''a'' = Some ''0''"
    by code_simp
  have 2: "encodingMap (generateHuffmanCodes (buildHuffmanTree ''aaabbc'' newHuffmanCompression))
             ''c'' = Some ''10''"
    by code_simp
  have 3: "''a'' \<noteq> ''c''" by simp
  from codes_prefix_free [OF 1 2 3] 1 2 3 show ?thesis by simp
qed

text \<open>
  C3 (code length ordering).  For every input, a symbol whose frequency in the table is
  strictly higher than that of another symbol never has a strictly longer code than it.
\<close>

theorem code_length_order:
  assumes "mapGet (calculateCharacterFrequencies inputText) [a] = Some fa"
    and "mapGet (calculateCharacterFrequencies inputText) [b] = Some fb"
    and "fb < fa"
    and "encodingMap (generateHuffmanCodes (buildHuffmanTree inputText h)) [a] = Some ca"
    and "encodingMap (generateHuffmanCodes (buildHuffmanTree inputText h)) [b] = Some cb"
  shows "length ca \<le> length cb"
proof -
  let ?fm = "calculateCharacterFrequencies inputText"
  let ?ts = "initialTrees ?fm"
  from assms(1) have "inputText \<noteq> []"
    by (auto simp: calculateCharacterFrequencies_def)
  then obtain T where T: "hbuild ?ts = [T]"
    "root (buildHuffmanTree inputText h) = Some (nodeOf T)" "distinct (symbols T)"
    by (rule built_tree)
  have ca: "ca = codeOf T a" and cb: "cb = codeOf T b"
    using assms(4,5) unfolding codes_built [OF T(2,3)] by (auto split: if_splits)
  have ma: "HLeaf a fa \<in> set ?ts"
    using mapGet_mem [OF assms(1)] by (force simp: initialTrees_def)
  have mb: "HLeaf b fb \<in> set ?ts"
    using mapGet_mem [OF assms(2)] by (force simp: initialTrees_def)
  have "length (codeOf T a) = length (codeOf (HLeaf a fa) a) + rise ?ts (HLeaf a fa)"
    using initial_distinct ma _ T(1) by (rule rise_code) simp
  moreover have "length (codeOf T b) = length (codeOf (HLeaf b fb) b) + rise ?ts (HLeaf b fb)"
    using initial_distinct mb _ T(1) by (rule rise_code) simp
  moreover have "rise ?ts (HLeaf a fa) \<le> rise ?ts (HLeaf b fb)"
    using rise_order [OF initial_inv, of inputText] ma mb assms(3) by simp
  ultimately show ?thesis by (simp add: ca cb)
qed

theorem code_length_order_witness:
  "mapGet (calculateCharacterFrequencies ''aaabbc'') ''a'' = Some 3 \<and>
   mapGet (calculateCharacterFrequencies ''aaabbc'') ''c'' = Some 1 \<and>
   (1 :: nat) < 3 \<and>
   encodingMap (generateHuffmanCodes (buildHuffmanTree ''aaabbc'' newHuffmanCompression)) ''a'' =
     Some ''0'' \<and>
   encodingMap (generateHuffmanCodes (buildHuffmanTree ''aaabbc'' newHuffmanCompression)) ''c'' =
     Some ''10'' \<and>
   length ''0'' \<le> length ''10''"
proof -
  have 1: "mapGet (calculateCharacterFrequencies ''aaabbc'') ''a'' = Some 3" by code_simp
  have 2: "mapGet (calculateCharacterFrequencies ''aaabbc'') ''c'' = Some 1" by code_simp
  have 3: "(1 :: nat) < 3" by simp
  have 4: "encodingMap (generateHuffmanCodes (buildHuffmanTree ''aaabbc'' newHuffmanCompression))
             ''a'' = Some ''0''"
    by code_simp
  have 5: "encodingMap (generateHuffmanCodes (buildHuffmanTree ''aaabbc'' newHuffmanCompression))
             ''c'' = Some ''10''"
    by code_simp
  from code_length_order [OF 1 2 3 4 5] 1 2 3 4 5 show ?thesis by simp
qed

lemma roundtrip_two_symbols_example:
  "2 \<le> card (set ''aaabbc'') \<and>
   decodeText (generateHuffmanCodes (buildHuffmanTree ''aaabbc'' newHuffmanCompression))
     (encodeText (generateHuffmanCodes (buildHuffmanTree ''aaabbc'' newHuffmanCompression))
        ''aaabbc'') = ''aaabbc''"
proof -
  have c: "2 \<le> card (set ''aaabbc'')" by simp
  from roundtrip_two_symbols [OF c, of newHuffmanCompression] c show ?thesis by simp
qed

text \<open>
  C1 (round trip).  Encoding a text with the codes of the tree built from it and decoding
  the result with that tree gives the text back when the text has at least two distinct
  symbols (lemma \<open>roundtrip_two_symbols\<close>).  On a non-empty text with one distinct symbol
  it does not: the only code is the empty string, so the encoded text is empty and the
  decoder returns the empty text.  The text \<open>aaa\<close> is such an input.
\<close>

theorem roundtrip_single_symbol:
  "encodeText (generateHuffmanCodes (buildHuffmanTree ''aaa'' newHuffmanCompression)) ''aaa'' =
     [] \<and>
   decodeText (generateHuffmanCodes (buildHuffmanTree ''aaa'' newHuffmanCompression))
     (encodeText (generateHuffmanCodes (buildHuffmanTree ''aaa'' newHuffmanCompression)) ''aaa'') =
     [] \<and>
   decodeText (generateHuffmanCodes (buildHuffmanTree ''aaa'' newHuffmanCompression))
     (encodeText (generateHuffmanCodes (buildHuffmanTree ''aaa'' newHuffmanCompression)) ''aaa'') \<noteq>
     ''aaa''"
  by code_simp

end
